theory Spec2Isabelle
  imports
    Main
    "HOL-Library.Sublist"
    "HOL-Library.AList"
    "HOL-Library.Char_ord"
    "HOL-Library.List_Lexorder"
begin

section \<open>The snippet combiner of sde-docs (scripts/generate-snippets.py)\<close>

text \<open>
  Python strings are modelled as \<open>string\<close> (lists of characters); \<open>startswith\<close> and
  \<open>endswith\<close> are \<open>prefix\<close> and \<open>suffix\<close>, string comparison is the lexicographic order
  on character codes. Dictionaries keep their insertion order, so they are association
  lists.
\<close>

subsection \<open>Configuration tables (lines 12-47)\<close>

definition EXTENSION_MAPPING :: "(string \<times> string) list" where
  "EXTENSION_MAPPING =
     [(''.py'', ''Python''),
      (''.cs'', ''C#''),
      (''.kt'', ''Kotlin''),
      (''.java'', ''Java''),
      (''.go'', ''Go''),
      (''.php'', ''PHP''),
      (''.ts'', ''TypeScript''),
      (''.schema.json'', ''JSON Schema'')]"

definition SYNTAX_MAPPING :: "(string \<times> string) list" where
  "SYNTAX_MAPPING =
     [(''.py'', ''python''),
      (''.cs'', ''csharp''),
      (''.kt'', ''kotlin''),
      (''.java'', ''java''),
      (''.go'', ''go''),
      (''.php'', ''php''),
      (''.ts'', ''typescript''),
      (''.schema.json'', ''json'')]"

definition COMBINED_EXT :: string where
  "COMBINED_EXT = ''.md''"

text \<open>
  \<open>sorted(..., key=...)\<close> is a stable sort; so is \<open>sort_key\<close>. With \<open>reverse=True\<close>
  Python keeps the original order of elements with equal keys: it sorts the reversed
  list and reverses the result.
\<close>

definition LANGUAGE_ORDER :: "(string \<times> string) list" where
  "LANGUAGE_ORDER = sort_key snd EXTENSION_MAPPING"

definition SORTED_EXTENSIONS :: "string list" where
  "SORTED_EXTENSIONS = rev (sort_key length (rev (map fst EXTENSION_MAPPING)))"

subsection \<open>Paths (posixpath.join, normpath, abspath of the standard library)\<close>

text \<open>
  \<open>join a b\<close>: an absolute second part replaces the first; otherwise the parts are joined
  with one separator, which is not added after an empty first part or a trailing slash.
\<close>

definition join :: "string \<Rightarrow> string \<Rightarrow> string" where
  "join a b =
     (if prefix ''/'' b then b
      else if a = [] \<or> suffix ''/'' a then a @ b
      else a @ ''/'' @ b)"

text \<open>\<open>s.split(c)\<close>: the pieces between the separators, never an empty list.\<close>

fun split_on :: "char \<Rightarrow> string \<Rightarrow> string list" where
  "split_on c [] = [[]]"
| "split_on c (x # xs) =
     (if x = c then [] # split_on c xs
      else (x # hd (split_on c xs)) # tl (split_on c xs))"

text \<open>\<open>sep.join(xs)\<close>.\<close>

fun str_join :: "string \<Rightarrow> string list \<Rightarrow> string" where
  "str_join sep [] = []"
| "str_join sep [x] = x"
| "str_join sep (x # y # ys) = x @ sep @ str_join sep (y # ys)"

text \<open>
  The loop body of \<open>normpath\<close>: empty and \<open>.\<close> components are dropped, \<open>..\<close> removes
  the component before it where there is one to remove.
\<close>

definition normpath_step :: "nat \<Rightarrow> string \<Rightarrow> string list \<Rightarrow> string list" where
  "normpath_step initial_slashes component new_comps =
     (if component = [] \<or> component = ''.'' then new_comps
      else if component \<noteq> ''..'' \<or> (initial_slashes = 0 \<and> new_comps = [])
                \<or> (new_comps \<noteq> [] \<and> last new_comps = ''..'')
      then new_comps @ [component]
      else if new_comps \<noteq> [] then butlast new_comps
      else new_comps)"

definition normpath :: "string \<Rightarrow> string" where
  "normpath path =
     (if path = [] then ''.''
      else
        let initial_slashes =
              (if \<not> prefix ''/'' path then 0
               else if prefix ''//'' path \<and> \<not> prefix ''///'' path then 2
               else (1::nat));
            comps = fold (normpath_step initial_slashes) (split_on CHR ''/'' path) [];
            p = replicate initial_slashes CHR ''/'' @ str_join ''/'' comps
        in if p = [] then ''.'' else p)"

text \<open>\<open>abspath\<close> reads the working directory for a relative path; it is the parameter \<open>cwd\<close>.\<close>

definition abspath :: "string \<Rightarrow> string \<Rightarrow> string" where
  "abspath cwd path = normpath (if prefix ''/'' path then path else join cwd path)"

subsection \<open>path\_to\_snippet (lines 54-57)\<close>

text \<open>
  \<open>snipets_path\<close> (line 50) is computed from the location of the script; it is a
  parameter of every function that reads it.
\<close>

definition path_to_snippet :: "string \<Rightarrow> string \<Rightarrow> string option" where
  "path_to_snippet snipets_path fname =
     (if \<not> prefix snipets_path fname then None
      else Some (''snippets/'' @ drop (length snipets_path + 1) fname))"

text \<open>What an f-string prints for the result: \<open>None\<close> is printed as the word None.\<close>

definition py_str :: "string option \<Rightarrow> string" where
  "py_str r = (case r of None \<Rightarrow> ''None'' | Some s \<Rightarrow> s)"

subsection \<open>The files on disk and write\_if\_changed (lines 60-69)\<close>

text \<open>
  The disk is the association list \<open>contents\<close> from the path of each regular file to its
  text, in the order a directory scan reports the entries. \<open>open(fname, "r")\<close> raises
  FileNotFoundError exactly when the path has no entry, and reading returns the text
  last written there (the translation of line ends by text mode is not modelled).
  \<open>writes\<close> records every \<open>open(fname, "w")\<close>, in order. Other failures of the operating
  system (permissions, a directory at the path, a missing parent directory) are not part
  of the model.
\<close>

record filesystem =
  contents :: "(string \<times> string) list"
  writes :: "string list"

definition write_if_changed :: "string \<Rightarrow> string \<Rightarrow> filesystem \<Rightarrow> filesystem" where
  "write_if_changed fname content fs =
     (let old_content = map_of (contents fs) fname
      in if old_content \<noteq> Some content
         then fs\<lparr>contents := AList.update fname content (contents fs),
                 writes := writes fs @ [fname]\<rparr>
         else fs)"

subsection \<open>process\_folder (lines 73-102)\<close>

datatype error = KeyError string

text \<open>The inner loop with its \<open>break\<close>: the first extension of the sorted list that matches.\<close>

definition matched_ext :: "string \<Rightarrow> string option" where
  "matched_ext fname = find (\<lambda>ext. suffix ext fname) SORTED_EXTENSIONS"

text \<open>\<open>s[: -n]\<close>; for \<open>n = 0\<close> the slice \<open>s[:0]\<close> is empty.\<close>

definition slice_to_neg :: "string \<Rightarrow> nat \<Rightarrow> string" where
  "slice_to_neg s n = (if n = 0 then [] else take (length s - n) s)"

text \<open>\<open>found.setdefault(base, []).append(ext)\<close> on a dictionary in insertion order.\<close>

fun setdefault_append ::
  "(string \<times> string list) list \<Rightarrow> string \<Rightarrow> string \<Rightarrow> (string \<times> string list) list" where
  "setdefault_append [] base ext = [(base, [ext])]"
| "setdefault_append ((b, exts) # found) base ext =
     (if b = base then (b, exts @ [ext]) # found
      else (b, exts) # setdefault_append found base ext)"

text \<open>The first loop (lines 75-85); \<open>not matched_ext\<close> also holds for an empty string.\<close>

fun group_files ::
  "string list \<Rightarrow> (string \<times> string list) list \<Rightarrow> (string \<times> string list) list" where
  "group_files [] found = found"
| "group_files (fname # files) found =
     (case matched_ext fname of
        None \<Rightarrow> group_files files found
      | Some ext \<Rightarrow>
          if ext = [] then group_files files found
          else group_files files
                 (setdefault_append found (slice_to_neg fname (length ext)) ext))"

text \<open>The five lines of one tab block (lines 94-98).\<close>

definition tab_block :: "string \<Rightarrow> string \<Rightarrow> string option \<Rightarrow> string list" where
  "tab_block lang syntax snippet =
     [''=== '' @ [CHR 0x22] @ lang @ [CHR 0x22],
      [],
      ''    ```'' @ syntax,
      ''    --8<-- '' @ [CHR 0x22] @ py_str snippet @ [CHR 0x22],
      ''    ```'']"

text \<open>
  The loop over \<open>LANGUAGE_ORDER\<close> (lines 89-100), with \<open>content\<close> as accumulator.
  \<open>SYNTAX_MAPPING[ext]\<close> raises KeyError for a missing key.
\<close>

fun tab_blocks ::
  "string \<Rightarrow> string \<Rightarrow> string \<Rightarrow> string list \<Rightarrow> (string \<times> string) list \<Rightarrow> string list
     \<Rightarrow> error + string list" where
  "tab_blocks snipets_path path base exts [] content = Inr content"
| "tab_blocks snipets_path path base exts ((ext, lang) # order) content =
     (if ext \<in> set exts then
        (let infile = join path (base @ ext)
         in case map_of SYNTAX_MAPPING ext of
              None \<Rightarrow> Inl (KeyError ext)
            | Some syntax \<Rightarrow>
                tab_blocks snipets_path path base exts order
                  (content @ tab_block lang syntax (path_to_snippet snipets_path infile)))
      else tab_blocks snipets_path path base exts order content)"

text \<open>The text handed to \<open>write_if_changed\<close> for one group (lines 88-102).\<close>

definition combined_content ::
  "string \<Rightarrow> string \<Rightarrow> string \<Rightarrow> string list \<Rightarrow> error + string" where
  "combined_content snipets_path path base exts =
     (case tab_blocks snipets_path path base exts LANGUAGE_ORDER [] of
        Inl e \<Rightarrow> Inl e
      | Inr content \<Rightarrow> Inr (str_join [CHR 0x0A] (content @ [[]])))"

text \<open>The second loop (lines 86-102), over the groups in insertion order.\<close>

fun write_groups ::
  "string \<Rightarrow> string \<Rightarrow> (string \<times> string list) list \<Rightarrow> filesystem \<Rightarrow> error + filesystem" where
  "write_groups snipets_path path [] fs = Inr fs"
| "write_groups snipets_path path ((base, exts) # found) fs =
     (let fname = join path (base @ COMBINED_EXT)
      in case combined_content snipets_path path base exts of
           Inl e \<Rightarrow> Inl e
         | Inr content \<Rightarrow>
             write_groups snipets_path path found (write_if_changed fname content fs))"

definition process_folder ::
  "string \<Rightarrow> string \<Rightarrow> string list \<Rightarrow> filesystem \<Rightarrow> error + filesystem" where
  "process_folder snipets_path path files fs =
     write_groups snipets_path path (group_files files []) fs"

subsection \<open>generate (lines 105-107) and os.walk\<close>

text \<open>
  The directories below the walked one: each with its name and its own subdirectories.
  \<open>generate\<close> creates and removes no directory, so the tree is fixed during a run.
\<close>

datatype dtree = DTree "(string \<times> dtree) list"

text \<open>
  \<open>os.walk(top)\<close>, top-down: \<open>top\<close> itself, then the walk of every subdirectory at
  \<open>join(top, name)\<close>. The result lists the first component of the triples it yields.
\<close>

fun walk :: "string \<Rightarrow> dtree \<Rightarrow> string list" where
  "walk topdir (DTree subs) =
     topdir # concat (map (\<lambda>sub. walk (join topdir (fst sub)) (snd sub)) subs)"

text \<open>
  The third component of a triple: the names of the files directly inside the directory,
  read from the disk when the walk reaches it. A name is not empty and holds no
  separator.
\<close>

definition entry_name :: "string \<Rightarrow> string \<Rightarrow> string option" where
  "entry_name topdir p =
     (let name = drop (length topdir + 1) p
      in if prefix (topdir @ ''/'') p \<and> name \<noteq> [] \<and> CHR ''/'' \<notin> set name
         then Some name else None)"

definition nondirs :: "filesystem \<Rightarrow> string \<Rightarrow> string list" where
  "nondirs fs topdir = List.map_filter (entry_name topdir) (map fst (contents fs))"

text \<open>
  The loop of \<open>generate\<close>: \<open>walk\<close> is a generator, so the files of a directory are listed
  after the directories before it have been processed.
\<close>

fun generate_loop ::
  "string \<Rightarrow> string \<Rightarrow> string list \<Rightarrow> filesystem \<Rightarrow> error + filesystem" where
  "generate_loop cwd snipets_path [] fs = Inr fs"
| "generate_loop cwd snipets_path (root # roots) fs =
     (case process_folder snipets_path (abspath cwd (join snipets_path root))
             (nondirs fs root) fs of
        Inl e \<Rightarrow> Inl e
      | Inr fs' \<Rightarrow> generate_loop cwd snipets_path roots fs')"

definition generate :: "string \<Rightarrow> string \<Rightarrow> dtree \<Rightarrow> filesystem \<Rightarrow> error + filesystem" where
  "generate cwd snipets_path tree fs =
     generate_loop cwd snipets_path (walk snipets_path tree) fs"

subsection \<open>Notions used in the statements\<close>

text \<open>
  Containment as the specification words it: the path is the root directory or lies in
  the tree below it (the root followed by a separator and the rest).
\<close>

definition lies_inside :: "string \<Rightarrow> string \<Rightarrow> bool" where
  "lies_inside snipets_path fname \<longleftrightarrow>
     fname = snipets_path \<or> prefix (snipets_path @ ''/'') fname"

text \<open>A name of a directory entry: not empty, no separator, not \<open>.\<close> or \<open>..\<close>.\<close>

definition valid_name :: "string \<Rightarrow> bool" where
  "valid_name name \<longleftrightarrow>
     name \<noteq> [] \<and> CHR ''/'' \<notin> set name \<and> name \<noteq> ''.'' \<and> name \<noteq> ''..''"

text \<open>
  An absolute path in normal form, as \<open>abspath\<close> returns it for a directory other than
  the root of the file system: a separator before each of its names.
\<close>

definition normalized_dir :: "string \<Rightarrow> bool" where
  "normalized_dir d \<longleftrightarrow>
     prefix ''/'' d \<and> list_all valid_name (tl (split_on CHR ''/'' d))"

fun valid_tree :: "dtree \<Rightarrow> bool" where
  "valid_tree (DTree subs) \<longleftrightarrow>
     list_all (\<lambda>sub. valid_name (fst sub) \<and> valid_tree (snd sub)) subs"

text \<open>
  The loop over \<open>LANGUAGE_ORDER\<close> in closed form: the blocks of the extensions present, in
  that order; and the text of the combined file made of them.
\<close>

definition blocks_for :: "string \<Rightarrow> string \<Rightarrow> string \<Rightarrow> string set \<Rightarrow> string list" where
  "blocks_for snipets_path path base present =
     concat (map (\<lambda>(ext, lang).
                    tab_block lang (the (map_of SYNTAX_MAPPING ext))
                      (path_to_snippet snipets_path (join path (base @ ext))))
                 (filter (\<lambda>(ext, lang). ext \<in> present) LANGUAGE_ORDER))"

definition content_for :: "string \<Rightarrow> string \<Rightarrow> string \<Rightarrow> string set \<Rightarrow> string" where
  "content_for snipets_path path base present =
     str_join [CHR 0x0A] (blocks_for snipets_path path base present @ [[]])"

text \<open>The extensions matched for a base name among the files of a directory.\<close>

definition exts_for :: "string list \<Rightarrow> string \<Rightarrow> string set" where
  "exts_for files base =
     {ext. \<exists>fname \<in> set files.
             matched_ext fname = Some ext \<and> slice_to_neg fname (length ext) = base}"

text \<open>The paths and texts that \<open>process_folder\<close> hands to \<open>write_if_changed\<close>, in order.\<close>

definition folder_writes ::
  "string \<Rightarrow> string \<Rightarrow> string list \<Rightarrow> (string \<times> string) list" where
  "folder_writes snipets_path path files =
     map (\<lambda>(base, exts).
            (join path (base @ COMBINED_EXT), content_for snipets_path path base (set exts)))
         (group_files files [])"


section \<open>Properties\<close>

subsection \<open>The tables\<close>

lemma SORTED_EXTENSIONS_eq:
  "SORTED_EXTENSIONS =
     [''.schema.json'', ''.java'', ''.php'', ''.py'', ''.cs'', ''.kt'', ''.go'', ''.ts'']"
  by (simp add: SORTED_EXTENSIONS_def EXTENSION_MAPPING_def)

lemma LANGUAGE_ORDER_eq:
  "LANGUAGE_ORDER =
     [(''.cs'', ''C#''), (''.go'', ''Go''), (''.schema.json'', ''JSON Schema''),
      (''.java'', ''Java''), (''.kt'', ''Kotlin''), (''.php'', ''PHP''),
      (''.py'', ''Python''), (''.ts'', ''TypeScript'')]"
  by (simp add: LANGUAGE_ORDER_def EXTENSION_MAPPING_def less_eq_char_def less_char_def)

lemma set_SORTED_EXTENSIONS: "set SORTED_EXTENSIONS = set (map fst EXTENSION_MAPPING)"
  by (simp add: SORTED_EXTENSIONS_def)

lemma SORTED_EXTENSIONS_sorted:
  "sorted_wrt (\<lambda>a b. length b \<le> length a) SORTED_EXTENSIONS"
  by (simp add: SORTED_EXTENSIONS_eq)

lemma SORTED_EXTENSIONS_nonempty: "ext \<in> set SORTED_EXTENSIONS \<Longrightarrow> ext \<noteq> []"
  by (auto simp: SORTED_EXTENSIONS_eq)

subsection \<open>Matching the extension\<close>

lemma find_longest:
  "sorted_wrt (\<lambda>a b. length b \<le> length a) xs \<Longrightarrow> find P xs = Some x \<Longrightarrow>
   y \<in> set xs \<Longrightarrow> P y \<Longrightarrow> length y \<le> length x"
  by (induction xs) (auto split: if_splits)

lemma suffix_same_length: "suffix a s \<Longrightarrow> suffix b s \<Longrightarrow> length a = length b \<Longrightarrow> a = b"
  by (auto simp: suffix_def)

lemma matched_ext_SomeD:
  assumes "matched_ext fname = Some ext"
  shows "ext \<in> set SORTED_EXTENSIONS" and "suffix ext fname" and "ext \<noteq> []"
proof -
  show mem: "ext \<in> set SORTED_EXTENSIONS" and "suffix ext fname"
    using assms by (auto simp: matched_ext_def find_Some_iff)
  show "ext \<noteq> []"
    using mem by (rule SORTED_EXTENSIONS_nonempty)
qed

lemma slice_to_neg_suffix:
  "suffix ext fname \<Longrightarrow> ext \<noteq> [] \<Longrightarrow> slice_to_neg fname (length ext) @ ext = fname"
  by (auto simp: slice_to_neg_def suffix_def)

text \<open>
  C2. The extension matched for a file name is the longest extension of the table that is
  a suffix of the name (no matching extension is longer, and one of the same length is
  the matched one itself), no extension is matched exactly when none is a suffix, and the
  base name is the name without the matched extension; \<open>example.schema.json\<close> is grouped
  under \<open>.schema.json\<close> with base \<open>example\<close>.
\<close>

theorem longest_extension_matched:
  "(case matched_ext fname of
      None \<Rightarrow> \<forall>e \<in> set (map fst EXTENSION_MAPPING). \<not> suffix e fname
    | Some ext \<Rightarrow>
        ext \<in> set (map fst EXTENSION_MAPPING) \<and> suffix ext fname \<and>
        (\<forall>e \<in> set (map fst EXTENSION_MAPPING).
           suffix e fname \<longrightarrow>
             length e \<le> length ext \<and> (length e = length ext \<longrightarrow> e = ext)) \<and>
        slice_to_neg fname (length ext) @ ext = fname \<and>
        group_files [fname] [] = [(slice_to_neg fname (length ext), [ext])])
   \<and> matched_ext ''example.schema.json'' = Some ''.schema.json''
   \<and> group_files [''example.schema.json''] [] = [(''example'', [''.schema.json''])]"
proof -
  have ex: "matched_ext ''example.schema.json'' = Some ''.schema.json''"
    by (simp add: matched_ext_def SORTED_EXTENSIONS_eq suffix_to_prefix)
  have grp: "group_files [''example.schema.json''] [] = [(''example'', [''.schema.json''])]"
    by (simp add: ex slice_to_neg_def)
  have main: "(case matched_ext fname of
      None \<Rightarrow> \<forall>e \<in> set (map fst EXTENSION_MAPPING). \<not> suffix e fname
    | Some ext \<Rightarrow>
        ext \<in> set (map fst EXTENSION_MAPPING) \<and> suffix ext fname \<and>
        (\<forall>e \<in> set (map fst EXTENSION_MAPPING).
           suffix e fname \<longrightarrow>
             length e \<le> length ext \<and> (length e = length ext \<longrightarrow> e = ext)) \<and>
        slice_to_neg fname (length ext) @ ext = fname \<and>
        group_files [fname] [] = [(slice_to_neg fname (length ext), [ext])])"
  proof (cases "matched_ext fname")
    case None
    then have "\<forall>e \<in> set (map fst EXTENSION_MAPPING). \<not> suffix e fname"
      unfolding matched_ext_def find_None_iff set_SORTED_EXTENSIONS by blast
    then show ?thesis
      unfolding None by simp
  next
    case (Some ext)
    note facts = matched_ext_SomeD [OF Some]
    have longest: "length e \<le> length ext \<and> (length e = length ext \<longrightarrow> e = ext)"
      if "e \<in> set SORTED_EXTENSIONS" "suffix e fname" for e
    proof -
      have "length e \<le> length ext"
        using find_longest [OF SORTED_EXTENSIONS_sorted, of "\<lambda>x. suffix x fname" ext e] Some that
        by (simp add: matched_ext_def)
      moreover have "length e = length ext \<longrightarrow> e = ext"
        using suffix_same_length [OF that(2) facts(2)] by blast
      ultimately show ?thesis by simp
    qed
    show ?thesis
      using Some facts longest slice_to_neg_suffix [OF facts(2,3)]
      by (simp add: set_SORTED_EXTENSIONS del: set_map)
  qed
  show ?thesis using main ex grp by blast
qed

theorem longest_extension_matched_witness:
  "matched_ext ''Main.java'' = Some ''.java''
   \<and> ''.java'' \<in> set (map fst EXTENSION_MAPPING)
   \<and> suffix ''.java'' ''Main.java''
   \<and> length ''.java'' \<le> length ''.java''
   \<and> slice_to_neg ''Main.java'' (length ''.java'') @ ''.java'' = ''Main.java''
   \<and> group_files [''Main.java''] [] = [(''Main'', [''.java''])]"
proof -
  have m: "matched_ext ''Main.java'' = Some ''.java''"
    by (simp add: matched_ext_def SORTED_EXTENSIONS_eq suffix_to_prefix)
  show ?thesis
    using longest_extension_matched [of "''Main.java''"] unfolding m
    by (simp add: slice_to_neg_def)
qed

subsection \<open>The loops of process\_folder in closed form\<close>

lemma SYNTAX_MAPPING_keys: "set (map fst SYNTAX_MAPPING) = set (map fst EXTENSION_MAPPING)"
  by (simp add: SYNTAX_MAPPING_def EXTENSION_MAPPING_def)

lemma set_LANGUAGE_ORDER: "set LANGUAGE_ORDER = set EXTENSION_MAPPING"
  by (simp add: LANGUAGE_ORDER_def)

lemma SYNTAX_MAPPING_defined:
  "ext \<in> set (map fst EXTENSION_MAPPING) \<Longrightarrow> map_of SYNTAX_MAPPING ext \<noteq> None"
  unfolding SYNTAX_MAPPING_keys [symmetric] by (simp add: map_of_eq_None_iff)

lemma LANGUAGE_ORDER_syntax:
  "(ext, lang) \<in> set LANGUAGE_ORDER \<Longrightarrow> map_of SYNTAX_MAPPING ext \<noteq> None"
  by (rule SYNTAX_MAPPING_defined) (force simp: set_LANGUAGE_ORDER)

lemma tab_blocks_closed:
  "\<forall>ext \<in> fst ` set order. map_of SYNTAX_MAPPING ext \<noteq> None \<Longrightarrow>
   tab_blocks snipets_path path base exts order content =
     Inr (content @
       concat (map (\<lambda>(ext, lang).
                      tab_block lang (the (map_of SYNTAX_MAPPING ext))
                        (path_to_snippet snipets_path (join path (base @ ext))))
                   (filter (\<lambda>(ext, lang). ext \<in> set exts) order)))"
  by (induction order arbitrary: content) auto

lemma LANGUAGE_ORDER_all_syntax:
  "\<forall>ext \<in> fst ` set LANGUAGE_ORDER. map_of SYNTAX_MAPPING ext \<noteq> None"
  using LANGUAGE_ORDER_syntax by fastforce

lemma combined_content_eq:
  "combined_content snipets_path path base exts =
     Inr (content_for snipets_path path base (set exts))"
  unfolding combined_content_def content_for_def blocks_for_def
  by (simp add: tab_blocks_closed [OF LANGUAGE_ORDER_all_syntax])

lemma write_groups_eq:
  "write_groups snipets_path path found fs =
     Inr (fold (\<lambda>(fname, content). write_if_changed fname content)
            (map (\<lambda>(base, exts).
                    (join path (base @ COMBINED_EXT),
                     content_for snipets_path path base (set exts))) found) fs)"
  by (induction found arbitrary: fs) (auto simp: combined_content_eq)

lemma process_folder_eq:
  "process_folder snipets_path path files fs =
     Inr (fold (\<lambda>(fname, content). write_if_changed fname content)
            (folder_writes snipets_path path files) fs)"
  by (simp add: process_folder_def folder_writes_def write_groups_eq)

text \<open>
  C10. The syntax table has the keys of the extension table, so the lookup
  \<open>SYNTAX_MAPPING[ext]\<close> is defined for every matched extension and for every extension
  of the language order: building a combined file and processing a folder never end in
  a KeyError.
\<close>

theorem syntax_lookup_defined:
  "set (map fst SYNTAX_MAPPING) = set (map fst EXTENSION_MAPPING)
   \<and> (matched_ext fname = Some ext \<longrightarrow> map_of SYNTAX_MAPPING ext \<noteq> None)
   \<and> ((ext', lang) \<in> set LANGUAGE_ORDER \<longrightarrow> map_of SYNTAX_MAPPING ext' \<noteq> None)
   \<and> combined_content snipets_path path base exts \<noteq> Inl e
   \<and> process_folder snipets_path path files fs \<noteq> Inl e"
proof -
  have "matched_ext fname = Some ext \<longrightarrow> map_of SYNTAX_MAPPING ext \<noteq> None"
    using matched_ext_SomeD(1) [of fname ext] SYNTAX_MAPPING_defined [of ext]
    by (auto simp: set_SORTED_EXTENSIONS)
  then show ?thesis
    using SYNTAX_MAPPING_keys LANGUAGE_ORDER_syntax [of ext' lang]
    by (simp add: combined_content_eq process_folder_eq)
qed

theorem syntax_lookup_defined_witness:
  "matched_ext ''demo.py'' = Some ''.py''
   \<and> map_of SYNTAX_MAPPING ''.py'' = Some ''python''
   \<and> (''.py'', ''Python'') \<in> set LANGUAGE_ORDER
   \<and> process_folder ''/docs/snippets'' ''/docs/snippets'' [''demo.py'']
        \<lparr>contents = [], writes = []\<rparr> \<noteq> Inl (KeyError ''.py'')"
proof -
  have m: "matched_ext ''demo.py'' = Some ''.py''"
    by (simp add: matched_ext_def SORTED_EXTENSIONS_eq suffix_to_prefix)
  have s: "map_of SYNTAX_MAPPING ''.py'' = Some ''python''"
    by (simp add: SYNTAX_MAPPING_def)
  have l: "(''.py'', ''Python'') \<in> set LANGUAGE_ORDER"
    by (simp add: LANGUAGE_ORDER_eq)
  show ?thesis
    using syntax_lookup_defined [of "''demo.py''" "''.py''" "''.py''" "''Python''"
        "''/docs/snippets''" "''/docs/snippets''" "[]" "[]" "KeyError ''.py''" "[''demo.py'']"
        "\<lparr>contents = [], writes = []\<rparr>"] m s l
    by simp
qed

subsection \<open>write\_if\_changed\<close>



subsection \<open>path\_to\_snippet\<close>

text \<open>
  C3, as stated, fails: the test is a comparison of strings, so a path in a sibling
  directory whose name starts with the name of the root is not inside the root and still
  gets a reference, with the rest of the directory name in it.
\<close>

theorem outside_root_counterexample:
  "\<not> lies_inside ''/docs/snippets'' ''/docs/snippets-old/a.py''
   \<and> path_to_snippet ''/docs/snippets'' ''/docs/snippets-old/a.py'' = Some ''snippets/old/a.py''"
  by (simp add: lies_inside_def path_to_snippet_def)

text \<open>
  C3, amended. \<open>path_to_snippet\<close> returns None exactly for the paths that do not start,
  as strings, with the root; for a path inside the root, the root followed by a separator
  and a relative path, it returns \<open>snippets/\<close> followed by that relative path.
\<close>

theorem path_to_snippet_lexical:
  "(path_to_snippet snipets_path fname = None \<longleftrightarrow> \<not> prefix snipets_path fname)
   \<and> path_to_snippet snipets_path (snipets_path @ ''/'' @ rel) = Some (''snippets/'' @ rel)
   \<and> (lies_inside snipets_path fname \<longrightarrow>
        path_to_snippet snipets_path fname
          = Some (''snippets/'' @ drop (length snipets_path + 1) fname))"
  by (auto simp: path_to_snippet_def lies_inside_def dest: append_prefixD)

theorem path_to_snippet_lexical_witness:
  "path_to_snippet ''/docs/snippets'' ''/tmp/a.py'' = None
   \<and> \<not> prefix ''/docs/snippets'' ''/tmp/a.py''
   \<and> lies_inside ''/docs/snippets'' ''/docs/snippets/go/a.go''
   \<and> path_to_snippet ''/docs/snippets'' ''/docs/snippets/go/a.go'' = Some ''snippets/go/a.go''"
  using path_to_snippet_lexical [of "''/docs/snippets''" "''/tmp/a.py''" "''go/a.go''"]
    path_to_snippet_lexical [of "''/docs/snippets''" "''/docs/snippets/go/a.go''" "''go/a.go''"]
  by (simp add: lies_inside_def)

subsection \<open>Files without a known extension\<close>

lemma group_files_skip:
  "matched_ext fname = None \<Longrightarrow>
   group_files (before @ fname # after) found = group_files (before @ after) found"
  by (induction before arbitrary: found) (auto split: option.splits)

lemma group_files_no_match:
  "\<forall>f \<in> set files. matched_ext f = None \<Longrightarrow> group_files files found = found"
  by (induction files arbitrary: found) auto

text \<open>
  C8. A file whose name matches no extension of the table joins no group and changes
  nothing in the outcome, wherever it stands in the listing; processing raises no error;
  a directory where no file matches gives no group, and processing it leaves the files
  and the record of writes as they were.
\<close>

theorem unmatched_files_skipped:
  "(matched_ext fname = None \<longrightarrow>
      group_files (before @ fname # after) found = group_files (before @ after) found
      \<and> process_folder snipets_path path (before @ fname # after) fs
          = process_folder snipets_path path (before @ after) fs)
   \<and> process_folder snipets_path path files fs \<noteq> Inl e
   \<and> ((\<forall>f \<in> set files. matched_ext f = None) \<longrightarrow>
        group_files files [] = [] \<and> process_folder snipets_path path files fs = Inr fs)"
proof -
  have "process_folder snipets_path path files fs = Inr fs"
    if "\<forall>f \<in> set files. matched_ext f = None"
    using group_files_no_match [OF that, of "[]"]
    by (simp add: process_folder_def)
  then show ?thesis
    using group_files_skip [of fname before after] group_files_no_match [of files "[]"]
    by (simp add: process_folder_def process_folder_eq [unfolded process_folder_def])
qed


theorem unmatched_files_skipped_witness:
  "matched_ext ''README.txt'' = None
   \<and> group_files ([''a.py''] @ ''README.txt'' # [''a.go'']) []
       = group_files ([''a.py''] @ [''a.go'']) []
   \<and> process_folder ''/docs/snippets'' ''/docs/snippets'' [''README.txt'', ''notes.md'']
        \<lparr>contents = [(''/docs/snippets/README.txt'', ''hello'')], writes = []\<rparr>
       = Inr \<lparr>contents = [(''/docs/snippets/README.txt'', ''hello'')], writes = []\<rparr>"
proof -
  have m: "matched_ext ''README.txt'' = None" "matched_ext ''notes.md'' = None"
    by (simp_all add: matched_ext_def SORTED_EXTENSIONS_eq suffix_to_prefix)
  show ?thesis
    using unmatched_files_skipped [of "''README.txt''" "[''a.py'']" "[''a.go'']" "[]"
        "''/docs/snippets''" "''/docs/snippets''"
        "\<lparr>contents = [(''/docs/snippets/README.txt'', ''hello'')], writes = []\<rparr>"
        "[''README.txt'', ''notes.md'']"] m
    by simp
qed

subsection \<open>The store after a sequence of writes, and the groups\<close>

lemma map_of_write_if_changed:
  "map_of (contents (write_if_changed fname content fs)) p =
     (if p = fname then Some content else map_of (contents fs) p)"
  by (auto simp: write_if_changed_def update_conv')

lemma fold_writes_map_of:
  "map_of (contents (fold (\<lambda>(fname, content). write_if_changed fname content) pcs fs)) p =
     (case map_of (rev pcs) p of Some c \<Rightarrow> Some c | None \<Rightarrow> map_of (contents fs) p)"
proof (induction pcs arbitrary: fs)
  case Nil
  then show ?case by simp
next
  case (Cons a pcs)
  obtain q c where a: "a = (q, c)" by (cases a)
  show ?case
    by (simp add: a Cons.IH map_of_write_if_changed map_add_def split: option.splits)
qed



subsection \<open>The groups of the first loop\<close>

lemma map_of_setdefault_append:
  "map_of (setdefault_append found base ext) =
     (map_of found)(base \<mapsto> (case map_of found base of None \<Rightarrow> [ext] | Some exts \<Rightarrow> exts @ [ext]))"
  by (induction found base ext rule: setdefault_append.induct) (auto simp: fun_eq_iff)

lemma keys_setdefault_append:
  "fst ` set (setdefault_append found base ext) = insert base (fst ` set found)"
  by (induction found base ext rule: setdefault_append.induct) auto

lemma distinct_setdefault_append:
  "distinct (map fst found) \<Longrightarrow> distinct (map fst (setdefault_append found base ext))"
  by (induction found base ext rule: setdefault_append.induct)
     (auto simp: keys_setdefault_append)

lemma exts_for_snoc:
  "exts_for (pre @ [fname]) b =
     exts_for pre b \<union>
       (case matched_ext fname of None \<Rightarrow> {}
        | Some ext \<Rightarrow> if slice_to_neg fname (length ext) = b then {ext} else {})"
  by (auto simp: exts_for_def split: option.splits if_splits)



lemma exts_for_snoc_None:
  "matched_ext fname = None \<Longrightarrow> exts_for (pre @ [fname]) b = exts_for pre b"
  by (simp add: exts_for_snoc)

lemma exts_for_snoc_Some:
  "matched_ext fname = Some ext \<Longrightarrow>
   exts_for (pre @ [fname]) b =
     (if slice_to_neg fname (length ext) = b then insert ext (exts_for pre b) else exts_for pre b)"
  by (simp add: exts_for_snoc)

lemma setdefault_append_inv:
  assumes some: "\<forall>b exts. map_of found b = Some exts \<longrightarrow> set exts = E b \<and> exts \<noteq> []"
    and none: "\<forall>b. map_of found b = None \<longrightarrow> E b = {}"
  shows "\<forall>b exts. map_of (setdefault_append found b0 ext) b = Some exts \<longrightarrow>
           set exts = (if b0 = b then insert ext (E b) else E b) \<and> exts \<noteq> []"
    and "\<forall>b. map_of (setdefault_append found b0 ext) b = None \<longrightarrow>
           (if b0 = b then insert ext (E b) else E b) = {}"
proof -
  show "\<forall>b exts. map_of (setdefault_append found b0 ext) b = Some exts \<longrightarrow>
           set exts = (if b0 = b then insert ext (E b) else E b) \<and> exts \<noteq> []"
  proof (intro allI impI)
    fix b exts
    assume h: "map_of (setdefault_append found b0 ext) b = Some exts"
    show "set exts = (if b0 = b then insert ext (E b) else E b) \<and> exts \<noteq> []"
    proof (cases "b0 = b")
      case False
      then have "map_of found b = Some exts"
        using h by (simp add: map_of_setdefault_append)
      then show ?thesis using some False by simp
    next
      case True
      show ?thesis
      proof (cases "map_of found b0")
        case None
        then have "exts = [ext]" using h True by (simp add: map_of_setdefault_append)
        moreover have "E b0 = {}" using none None by simp
        ultimately show ?thesis using True by simp
      next
        case (Some e0)
        then have "exts = e0 @ [ext]" using h True by (simp add: map_of_setdefault_append)
        moreover have "set e0 = E b0" using some Some by simp
        ultimately show ?thesis using True by auto
      qed
    qed
  qed
  show "\<forall>b. map_of (setdefault_append found b0 ext) b = None \<longrightarrow>
           (if b0 = b then insert ext (E b) else E b) = {}"
  proof (intro allI impI)
    fix b
    assume h: "map_of (setdefault_append found b0 ext) b = None"
    then have "b0 \<noteq> b" and "map_of found b = None"
      by (auto simp: map_of_setdefault_append split: if_splits)
    then show "(if b0 = b then insert ext (E b) else E b) = {}"
      using none by simp
  qed
qed

lemma group_files_inv:
  assumes "distinct (map fst found)"
    and "\<forall>b exts. map_of found b = Some exts \<longrightarrow> set exts = exts_for pre b \<and> exts \<noteq> []"
    and "\<forall>b. map_of found b = None \<longrightarrow> exts_for pre b = {}"
  shows "distinct (map fst (group_files files found)) \<and>
         (\<forall>b exts. map_of (group_files files found) b = Some exts \<longrightarrow>
                      set exts = exts_for (pre @ files) b \<and> exts \<noteq> []) \<and>
         (\<forall>b. map_of (group_files files found) b = None \<longrightarrow> exts_for (pre @ files) b = {})"
  using assms
proof (induction files arbitrary: found pre)
  case Nil
  then show ?case by simp
next
  case (Cons fname files)
  have app: "(pre @ [fname]) @ files = pre @ fname # files" by simp
  show ?case
  proof (cases "matched_ext fname")
    case None
    have a: "\<forall>b exts. map_of found b = Some exts \<longrightarrow>
               set exts = exts_for (pre @ [fname]) b \<and> exts \<noteq> []"
      and b: "\<forall>b. map_of found b = None \<longrightarrow> exts_for (pre @ [fname]) b = {}"
      using Cons.prems(2,3) unfolding exts_for_snoc_None [OF None] by blast+
    have g: "group_files (fname # files) found = group_files files found"
      by (simp add: None)
    show ?thesis
      using Cons.IH [OF Cons.prems(1) a b] unfolding g app .
  next
    case (Some ext)
    have ne: "ext \<noteq> []" using matched_ext_SomeD(3) [OF Some] .
    let ?b = "slice_to_neg fname (length ext)"
    let ?found = "setdefault_append found ?b ext"
    have d: "distinct (map fst ?found)"
      using Cons.prems(1) by (rule distinct_setdefault_append)
    have a: "\<forall>b exts. map_of ?found b = Some exts \<longrightarrow>
               set exts = exts_for (pre @ [fname]) b \<and> exts \<noteq> []"
      unfolding exts_for_snoc_Some [OF Some]
      by (rule setdefault_append_inv(1) [OF Cons.prems(2,3)])
    have b: "\<forall>b. map_of ?found b = None \<longrightarrow> exts_for (pre @ [fname]) b = {}"
      unfolding exts_for_snoc_Some [OF Some]
      by (rule setdefault_append_inv(2) [OF Cons.prems(2,3)])
    have g: "group_files (fname # files) found = group_files files ?found"
      by (simp add: Some ne)
    show ?thesis
      using Cons.IH [OF d a b] unfolding g app .
  qed
qed

lemma exts_for_Nil: "exts_for [] b = {}"
  by (simp add: exts_for_def)

lemma group_files_facts:
  shows group_files_distinct: "distinct (map fst (group_files files []))"
    and group_files_Some_all:
      "\<forall>b exts. map_of (group_files files []) b = Some exts \<longrightarrow>
         set exts = exts_for files b \<and> exts \<noteq> []"
    and group_files_None_all:
      "\<forall>b. map_of (group_files files []) b = None \<longrightarrow> exts_for files b = {}"
proof -
  have 1: "distinct (map fst ([] :: (string \<times> string list) list))"
    by simp
  have 2: "\<forall>b exts. map_of ([] :: (string \<times> string list) list) b = Some exts \<longrightarrow>
             set exts = exts_for [] b \<and> exts \<noteq> []"
    by simp
  have 3: "\<forall>b. map_of ([] :: (string \<times> string list) list) b = None \<longrightarrow> exts_for [] b = {}"
    by (simp add: exts_for_Nil)
  note r = group_files_inv [OF 1 2 3, of files, unfolded append_Nil]
  show "distinct (map fst (group_files files []))"
    using r by (rule conjunct1)
  show "\<forall>b exts. map_of (group_files files []) b = Some exts \<longrightarrow>
         set exts = exts_for files b \<and> exts \<noteq> []"
    using r by (rule conjunct2 [THEN conjunct1])
  show "\<forall>b. map_of (group_files files []) b = None \<longrightarrow> exts_for files b = {}"
    using r by (rule conjunct2 [THEN conjunct2])
qed

lemma group_files_Some:
  "map_of (group_files files []) b = Some exts \<Longrightarrow> set exts = exts_for files b \<and> exts \<noteq> []"
  using group_files_Some_all by blast

lemma group_files_None:
  "map_of (group_files files []) b = None \<Longrightarrow> exts_for files b = {}"
  using group_files_None_all by blast

lemma group_files_mem:
  "(b, exts) \<in> set (group_files files []) \<longleftrightarrow> map_of (group_files files []) b = Some exts"
  using group_files_distinct [of files] by simp

subsection \<open>What process\_folder writes\<close>

lemma set_folder_writes:
  "set (folder_writes snipets_path path files) =
     (\<lambda>b. (join path (b @ COMBINED_EXT), content_for snipets_path path b (exts_for files b)))
       ` {b. exts_for files b \<noteq> {}}"
proof (intro set_eqI iffI)
  fix x
  assume "x \<in> set (folder_writes snipets_path path files)"
  then obtain b exts where m: "(b, exts) \<in> set (group_files files [])"
    and x: "x = (join path (b @ COMBINED_EXT), content_for snipets_path path b (set exts))"
    unfolding folder_writes_def by auto
  have "map_of (group_files files []) b = Some exts"
    using m by (simp add: group_files_mem)
  then have "set exts = exts_for files b" and "exts \<noteq> []"
    using group_files_Some by blast+
  then have "exts_for files b \<noteq> {}" by auto
  then show "x \<in> (\<lambda>b. (join path (b @ COMBINED_EXT),
                content_for snipets_path path b (exts_for files b))) ` {b. exts_for files b \<noteq> {}}"
    using x \<open>set exts = exts_for files b\<close> by simp
next
  fix x
  assume "x \<in> (\<lambda>b. (join path (b @ COMBINED_EXT),
                content_for snipets_path path b (exts_for files b))) ` {b. exts_for files b \<noteq> {}}"
  then obtain b where ne: "exts_for files b \<noteq> {}"
    and x: "x = (join path (b @ COMBINED_EXT), content_for snipets_path path b (exts_for files b))"
    by auto
  obtain exts where s: "map_of (group_files files []) b = Some exts"
    using group_files_None [of files b] ne by (cases "map_of (group_files files []) b") auto
  have "set exts = exts_for files b"
    using group_files_Some [OF s] by simp
  moreover have "(b, exts) \<in> set (group_files files [])"
    using s by (simp add: group_files_mem)
  ultimately have eq: "x = (\<lambda>(base, exts). (join path (base @ COMBINED_EXT),
            content_for snipets_path path base (set exts))) (b, exts)"
    and mem: "(b, exts) \<in> set (group_files files [])"
    unfolding x by simp_all
  show "x \<in> set (folder_writes snipets_path path files)"
    unfolding folder_writes_def set_map eq using mem by (rule imageI)
qed

lemma exts_for_cong: "set files = set files' \<Longrightarrow> exts_for files = exts_for files'"
  by (simp add: exts_for_def fun_eq_iff)

lemma exts_for_base:
  assumes "ext \<in> exts_for files b"
  shows "\<exists>fname \<in> set files. matched_ext fname = Some ext \<and> b @ ext = fname"
proof -
  obtain fname where f: "fname \<in> set files" "matched_ext fname = Some ext"
    "slice_to_neg fname (length ext) = b"
    using assms by (auto simp: exts_for_def)
  have "b @ ext = fname"
    using slice_to_neg_suffix [OF matched_ext_SomeD(2,3) [OF f(2)]] f(3) by simp
  then show ?thesis using f by blast
qed

lemma base_no_slash:
  assumes "\<forall>f \<in> set files. CHR ''/'' \<notin> set f" and "exts_for files b \<noteq> {}"
  shows "CHR ''/'' \<notin> set b"
proof -
  obtain ext where "ext \<in> exts_for files b" using assms(2) by blast
  then obtain fname where "fname \<in> set files" "b @ ext = fname"
    using exts_for_base by blast
  then show ?thesis using assms(1) by auto
qed

lemma join_relative:
  "\<not> prefix ''/'' b \<Longrightarrow>
   join a b = (if a = [] \<or> suffix ''/'' a then a @ b else a @ ''/'' @ b)"
  by (simp add: join_def)

lemma combined_name_relative: "CHR ''/'' \<notin> set b \<Longrightarrow> \<not> prefix ''/'' (b @ COMBINED_EXT)"
  by (cases b) (auto simp: COMBINED_EXT_def)

lemma join_inject:
  "\<not> prefix ''/'' x \<Longrightarrow> \<not> prefix ''/'' y \<Longrightarrow> join a x = join a y \<Longrightarrow> x = y"
  by (simp add: join_relative split: if_splits)

lemma folder_writes_distinct:
  assumes "\<forall>f \<in> set files. CHR ''/'' \<notin> set f"
  shows "distinct (map fst (folder_writes snipets_path path files))"
proof -
  let ?h = "\<lambda>b. join path (b @ COMBINED_EXT)"
  have keys: "map fst (folder_writes snipets_path path files) = map ?h (map fst (group_files files []))"
    by (simp add: folder_writes_def case_prod_unfold comp_def)
  have "inj_on ?h (set (map fst (group_files files [])))"
  proof (rule inj_onI)
    fix x y
    assume x: "x \<in> set (map fst (group_files files []))"
      and y: "y \<in> set (map fst (group_files files []))"
      and eq: "?h x = ?h y"
    have ne: "exts_for files b \<noteq> {}" if mem: "b \<in> set (map fst (group_files files []))" for b
    proof -
      obtain exts where "(b, exts) \<in> set (group_files files [])" using mem by force
      then have "map_of (group_files files []) b = Some exts" by (simp add: group_files_mem)
      then show ?thesis using group_files_Some by fastforce
    qed
    have "\<not> prefix ''/'' (x @ COMBINED_EXT)" "\<not> prefix ''/'' (y @ COMBINED_EXT)"
      using base_no_slash [OF assms ne [OF x]] base_no_slash [OF assms ne [OF y]]
      by (simp_all add: combined_name_relative)
    then have "x @ COMBINED_EXT = y @ COMBINED_EXT"
      using eq by (rule join_inject)
    then show "x = y" by simp
  qed
  then have "distinct (map ?h (map fst (group_files files [])))"
    by (rule distinct_map [of ?h "map fst (group_files files [])", THEN iffD2,
          OF conjI [OF group_files_distinct]])
  then show ?thesis
    unfolding keys .
qed

lemma map_of_rev_distinct: "distinct (map fst xs) \<Longrightarrow> map_of (rev xs) = map_of xs"
  by (rule map_of_inject_set [THEN iffD2]) (simp_all add: rev_map [symmetric])

lemma process_folder_map_of:
  assumes "\<forall>f \<in> set files. CHR ''/'' \<notin> set f"
    and "process_folder snipets_path path files fs = Inr fs'"
  shows "map_of (contents fs') p =
           (case map_of (folder_writes snipets_path path files) p of
              Some c \<Rightarrow> Some c | None \<Rightarrow> map_of (contents fs) p)"
proof -
  have "fs' = fold (\<lambda>(fname, content). write_if_changed fname content)
                (folder_writes snipets_path path files) fs"
    using assms(2) by (simp add: process_folder_eq)
  then show ?thesis
    by (simp add: fold_writes_map_of map_of_rev_distinct [OF folder_writes_distinct [OF assms(1)]])
qed

lemma folder_writes_lookup:
  assumes "\<forall>f \<in> set files. CHR ''/'' \<notin> set f" and "exts_for files b \<noteq> {}"
  shows "map_of (folder_writes snipets_path path files) (join path (b @ COMBINED_EXT))
           = Some (content_for snipets_path path b (exts_for files b))"
proof -
  have "(join path (b @ COMBINED_EXT), content_for snipets_path path b (exts_for files b))
          \<in> set (folder_writes snipets_path path files)"
    unfolding set_folder_writes using assms(2) by blast
  then show ?thesis
    using folder_writes_distinct [OF assms(1)] by simp
qed

text \<open>
  C5. The combined files of a directory depend only on the set of file names in it: for
  two listings with the same names (two orders of one listing among them),
  \<open>process_folder\<close> hands the same paths and texts to \<open>write_if_changed\<close> and leaves every
  path with the same text. File names hold no separator.
\<close>

theorem process_folder_order_independent:
  assumes "set files = set files'" and "\<forall>f \<in> set files. CHR ''/'' \<notin> set f"
  shows "\<exists>fs1 fs2.
           process_folder snipets_path path files fs = Inr fs1 \<and>
           process_folder snipets_path path files' fs = Inr fs2 \<and>
           map_of (contents fs1) = map_of (contents fs2) \<and>
           set (folder_writes snipets_path path files)
             = set (folder_writes snipets_path path files')"
proof -
  have sl: "\<forall>f \<in> set files'. CHR ''/'' \<notin> set f"
    using assms by simp
  obtain fs1 where 1: "process_folder snipets_path path files fs = Inr fs1"
    by (simp add: process_folder_eq)
  obtain fs2 where 2: "process_folder snipets_path path files' fs = Inr fs2"
    by (simp add: process_folder_eq)
  have s: "set (folder_writes snipets_path path files)
             = set (folder_writes snipets_path path files')"
    by (simp add: set_folder_writes exts_for_cong [OF assms(1)])
  have m: "map_of (folder_writes snipets_path path files)
             = map_of (folder_writes snipets_path path files')"
    using map_of_inject_set [OF folder_writes_distinct [OF assms(2)] folder_writes_distinct [OF sl]] s
    by blast
  have "map_of (contents fs1) p = map_of (contents fs2) p" for p
    by (simp add: process_folder_map_of [OF assms(2) 1] process_folder_map_of [OF sl 2] m)
  then show ?thesis using 1 2 s by blast
qed

theorem process_folder_order_independent_witness:
  "set [''demo.py'', ''demo.go''] = set [''demo.go'', ''demo.py'']
   \<and> (\<exists>fs1 fs2.
         process_folder ''/docs/snippets'' ''/docs/snippets'' [''demo.py'', ''demo.go'']
           \<lparr>contents = [], writes = []\<rparr> = Inr fs1 \<and>
         process_folder ''/docs/snippets'' ''/docs/snippets'' [''demo.go'', ''demo.py'']
           \<lparr>contents = [], writes = []\<rparr> = Inr fs2 \<and>
         map_of (contents fs1) = map_of (contents fs2) \<and>
         set (folder_writes ''/docs/snippets'' ''/docs/snippets'' [''demo.py'', ''demo.go''])
           = set (folder_writes ''/docs/snippets'' ''/docs/snippets'' [''demo.go'', ''demo.py'']))"
proof -
  have h1: "set [''demo.py'', ''demo.go''] = set [''demo.go'', ''demo.py'']"
    by auto
  have h2: "\<forall>f \<in> set [''demo.py'', ''demo.go'']. CHR ''/'' \<notin> set f"
    by simp
  show ?thesis
    using h1 process_folder_order_independent [OF h1 h2] by blast
qed

subsection \<open>A base name with a single variant\<close>

lemma filter_single_key:
  "distinct (map fst xs) \<Longrightarrow> (k, v) \<in> set xs \<Longrightarrow>
   filter (\<lambda>(e, l). e \<in> {k}) xs = [(k, v)]"
proof (induction xs)
  case Nil
  then show ?case by simp
next
  case (Cons a xs)
  obtain k' v' where a: "a = (k', v')" by (cases a)
  show ?case
  proof (cases "k' = k")
    case True
    then have "k \<notin> fst ` set xs" using Cons.prems(1) a by simp
    then have "filter (\<lambda>(e, l). e \<in> {k}) xs = []"
      by (force simp: filter_empty_conv)
    moreover have "v' = v"
      using Cons.prems(2) a True \<open>k \<notin> fst ` set xs\<close> by force
    ultimately show ?thesis using a True by simp
  next
    case False
    then have "(k, v) \<in> set xs" using Cons.prems(2) a by simp
    then show ?thesis using Cons.IH Cons.prems(1) a False by simp
  qed
qed

lemma LANGUAGE_ORDER_distinct: "distinct (map fst LANGUAGE_ORDER)"
  by (simp add: LANGUAGE_ORDER_eq)

lemma EXTENSION_MAPPING_distinct: "distinct (map fst EXTENSION_MAPPING)"
  by (simp add: EXTENSION_MAPPING_def)

lemma blocks_for_single:
  assumes "(ext, lang) \<in> set LANGUAGE_ORDER"
  shows "blocks_for snipets_path path base {ext} =
           tab_block lang (the (map_of SYNTAX_MAPPING ext))
             (path_to_snippet snipets_path (join path (base @ ext)))"
  unfolding blocks_for_def filter_single_key [OF LANGUAGE_ORDER_distinct assms]
  by simp

text \<open>
  C7. When exactly one file of a directory has a known extension and a given base name,
  processing the directory leaves a combined file for that base whose text is one tab
  block, with the display language of that extension in its header, followed by the
  final line break. File names hold no separator.
\<close>

theorem single_variant_combined_file:
  assumes "\<forall>f \<in> set files. CHR ''/'' \<notin> set f"
    and "fname \<in> set files" and "matched_ext fname = Some ext"
    and "\<forall>f \<in> set files. \<forall>e.
           matched_ext f = Some e \<and>
           slice_to_neg f (length e) = slice_to_neg fname (length ext) \<longrightarrow> f = fname"
  shows "\<exists>fs' lang syntax.
           process_folder snipets_path path files fs = Inr fs' \<and>
           map_of EXTENSION_MAPPING ext = Some lang \<and>
           map_of SYNTAX_MAPPING ext = Some syntax \<and>
           map_of (contents fs') (join path (slice_to_neg fname (length ext) @ COMBINED_EXT))
             = Some (str_join [CHR 0x0A]
                      (tab_block lang syntax (path_to_snippet snipets_path (join path fname))
                         @ [[]]))"
proof -
  let ?base = "slice_to_neg fname (length ext)"
  note m = matched_ext_SomeD [OF assms(3)]
  have whole: "?base @ ext = fname"
    using slice_to_neg_suffix [OF m(2,3)] .
  have "ext \<in> exts_for files ?base"
    using assms(2,3) by (auto simp: exts_for_def)
  moreover have "e = ext" if mem: "e \<in> exts_for files ?base" for e
  proof -
    obtain f where f: "f \<in> set files" "matched_ext f = Some e"
      "slice_to_neg f (length e) = ?base"
      using mem by (auto simp: exts_for_def)
    then have "f = fname" using assms(4) by blast
    then show ?thesis using f(2) assms(3) by simp
  qed
  ultimately have E: "exts_for files ?base = {ext}" by blast
  have "ext \<in> fst ` set EXTENSION_MAPPING"
    using m(1) by (simp add: set_SORTED_EXTENSIONS)
  then obtain lang where lang: "(ext, lang) \<in> set EXTENSION_MAPPING" by force
  then have L: "map_of EXTENSION_MAPPING ext = Some lang"
    using EXTENSION_MAPPING_distinct by simp
  obtain syn where S: "map_of SYNTAX_MAPPING ext = Some syn"
    using SYNTAX_MAPPING_defined [of ext] \<open>ext \<in> fst ` set EXTENSION_MAPPING\<close> by auto
  have lo: "(ext, lang) \<in> set LANGUAGE_ORDER"
    using lang by (simp add: set_LANGUAGE_ORDER)
  obtain fs' where P: "process_folder snipets_path path files fs = Inr fs'"
    by (simp add: process_folder_eq)
  have ne: "exts_for files ?base \<noteq> {}" using E by simp
  have "map_of (contents fs') (join path (?base @ COMBINED_EXT))
          = Some (content_for snipets_path path ?base (exts_for files ?base))"
    by (simp add: process_folder_map_of [OF assms(1) P] folder_writes_lookup [OF assms(1) ne])
  also have "content_for snipets_path path ?base (exts_for files ?base)
          = str_join [CHR 0x0A]
              (tab_block lang syn (path_to_snippet snipets_path (join path fname)) @ [[]])"
    unfolding E content_for_def blocks_for_single [OF lo] S whole by simp
  finally show ?thesis using P L S by blast
qed

theorem single_variant_combined_file_witness:
  "matched_ext ''only.kt'' = Some ''.kt''
   \<and> (\<exists>fs'. process_folder ''/docs/snippets'' ''/docs/snippets'' [''README.txt'', ''only.kt'']
               \<lparr>contents = [], writes = []\<rparr> = Inr fs'
          \<and> map_of (contents fs') ''/docs/snippets/only.md''
              = Some (str_join [CHR 0x0A]
                       (tab_block ''Kotlin'' ''kotlin'' (Some ''snippets/only.kt'') @ [[]])))"
proof -
  have m: "matched_ext ''only.kt'' = Some ''.kt''" "matched_ext ''README.txt'' = None"
    by (simp_all add: matched_ext_def SORTED_EXTENSIONS_eq suffix_to_prefix)
  have h1: "\<forall>f \<in> set [''README.txt'', ''only.kt'']. CHR ''/'' \<notin> set f"
    by simp
  have h2: "''only.kt'' \<in> set [''README.txt'', ''only.kt'']"
    by simp
  have h4: "\<forall>f \<in> set [''README.txt'', ''only.kt'']. \<forall>e.
           matched_ext f = Some e \<and>
           slice_to_neg f (length e) = slice_to_neg ''only.kt'' (length ''.kt'') \<longrightarrow> f = ''only.kt''"
    by (simp add: m)
  have j: "join ''/docs/snippets'' (slice_to_neg ''only.kt'' (length ''.kt'') @ COMBINED_EXT)
             = ''/docs/snippets/only.md''"
    "path_to_snippet ''/docs/snippets'' (join ''/docs/snippets'' ''only.kt'')
       = Some ''snippets/only.kt''"
    by (simp_all add: join_def slice_to_neg_def COMBINED_EXT_def path_to_snippet_def
        suffix_to_prefix)
  have t: "map_of EXTENSION_MAPPING ''.kt'' = Some ''Kotlin''"
    "map_of SYNTAX_MAPPING ''.kt'' = Some ''kotlin''"
    by (simp_all add: EXTENSION_MAPPING_def SYNTAX_MAPPING_def)
  show ?thesis
    using single_variant_combined_file [OF h1 h2 m(1) h4, of "''/docs/snippets''"
        "''/docs/snippets''" "\<lparr>contents = [], writes = []\<rparr>"]
    unfolding j t using m(1) by auto
qed

subsection \<open>Normalised directories and the walk\<close>

lemma split_on_nonempty: "split_on c s \<noteq> []"
  by (induction s) auto

lemma split_on_append:
  "split_on c (xs @ c # ys) = split_on c xs @ split_on c ys"
proof (induction xs)
  case Nil
  then show ?case by simp
next
  case (Cons x xs)
  have ne: "split_on c xs \<noteq> []" by (rule split_on_nonempty)
  show ?case
    using Cons.IH ne by (cases "split_on c xs") auto
qed

lemma split_on_no_sep: "c \<notin> set s \<Longrightarrow> split_on c s = [s]"
  by (induction s) auto

lemma str_join_split: "str_join [c] (split_on c s) = s"
proof (induction s)
  case Nil
  then show ?case by simp
next
  case (Cons x s)
  obtain y ys where sp: "split_on c s = y # ys"
    using split_on_nonempty [of c s] by (cases "split_on c s") auto
  show ?case
  proof (cases "x = c")
    case True
    then show ?thesis using Cons.IH sp by simp
  next
    case False
    then show ?thesis using Cons.IH sp by (cases ys) auto
  qed
qed

lemma normalized_dir_cases:
  assumes "normalized_dir d"
  obtains d' where "d = CHR ''/'' # d'" and "list_all valid_name (split_on CHR ''/'' d')"
proof -
  obtain d' where d: "d = CHR ''/'' # d'"
    using assms by (cases d) (auto simp: normalized_dir_def)
  then have "list_all valid_name (split_on CHR ''/'' d')"
    using assms by (simp add: normalized_dir_def)
  then show ?thesis using d that by blast
qed

lemma normalized_dir_no_trailing:
  assumes "normalized_dir d"
  shows "d \<noteq> []" and "\<not> suffix ''/'' d"
proof -
  obtain d' where d: "d = CHR ''/'' # d'" and v: "list_all valid_name (split_on CHR ''/'' d')"
    using assms by (rule normalized_dir_cases)
  show "d \<noteq> []" using d by simp
  show "\<not> suffix ''/'' d"
  proof
    assume "suffix ''/'' d"
    then obtain xs where xs: "d = xs @ ''/''" by (auto simp: suffix_def)
    show False
    proof (cases xs)
      case Nil
      then have "d' = []" using d xs by simp
      then show False using v by (simp add: valid_name_def)
    next
      case (Cons x xs')
      then have "d' = xs' @ CHR ''/'' # []" using d xs by simp
      then have "split_on CHR ''/'' d' = split_on CHR ''/'' xs' @ [[]]"
        by (simp add: split_on_append)
      then show False using v by (simp add: valid_name_def)
    qed
  qed
qed

lemma join_normalized:
  assumes "normalized_dir d" and "\<not> prefix ''/'' name"
  shows "join d name = d @ ''/'' @ name"
  using normalized_dir_no_trailing [OF assms(1)] assms(2) by (simp add: join_def)

lemma no_slash_relative: "CHR ''/'' \<notin> set name \<Longrightarrow> \<not> prefix ''/'' name"
  by (cases name) auto

lemma normalized_dir_child:
  assumes "normalized_dir d" and "valid_name name"
  shows "normalized_dir (d @ ''/'' @ name)"
proof -
  obtain d' where d: "d = CHR ''/'' # d'" and v: "list_all valid_name (split_on CHR ''/'' d')"
    using assms(1) by (rule normalized_dir_cases)
  have "split_on CHR ''/'' (d' @ CHR ''/'' # name) = split_on CHR ''/'' d' @ [name]"
    using assms(2) by (simp add: split_on_append split_on_no_sep valid_name_def)
  then show ?thesis
    using d v assms(2) by (simp add: normalized_dir_def)
qed

lemma fold_normpath_step_valid:
  "list_all valid_name cs \<Longrightarrow> fold (normpath_step k) cs acc = acc @ cs"
  by (induction cs arbitrary: acc) (auto simp: normpath_step_def valid_name_def)

lemma normpath_normalized:
  assumes "normalized_dir d"
  shows "normpath d = d"
proof -
  obtain d' where d: "d = CHR ''/'' # d'" and v: "list_all valid_name (split_on CHR ''/'' d')"
    using assms by (rule normalized_dir_cases)
  have nd: "\<not> prefix ''//'' d"
  proof
    assume "prefix ''//'' d"
    then obtain r where "d' = CHR ''/'' # r" using d by (cases d') auto
    then show False using v by (simp add: valid_name_def)
  qed
  have comps: "fold (normpath_step 1) (split_on CHR ''/'' d) [] = split_on CHR ''/'' d'"
    using fold_normpath_step_valid [OF v, of 1 "[]"]
    by (simp add: d normpath_step_def)
  have "split_on CHR ''/'' d' \<noteq> []" by (rule split_on_nonempty)
  have p: "replicate 1 CHR ''/'' @ str_join ''/'' (split_on CHR ''/'' d') = d"
    using str_join_split [of "CHR ''/''" d'] by (simp add: d)
  have pre: "prefix ''/'' d" using d by simp
  have ne: "d \<noteq> []" using d by simp
  show ?thesis
    unfolding normpath_def Let_def using pre nd ne comps p by simp
qed

lemma abspath_join_normalized:
  assumes "normalized_dir d"
  shows "abspath cwd (join snipets_path d) = d"
proof -
  have "prefix ''/'' d" using assms by (simp add: normalized_dir_def)
  then show ?thesis
    by (simp add: abspath_def join_def normpath_normalized [OF assms])
qed

lemma walk_normalized:
  "normalized_dir topdir \<Longrightarrow> valid_tree tree \<Longrightarrow> d \<in> set (walk topdir tree) \<Longrightarrow>
   normalized_dir d \<and> (d = topdir \<or> prefix (topdir @ ''/'') d)"
proof (induction topdir tree arbitrary: d rule: walk.induct)
  case (1 topdir subs)
  show ?case
  proof (cases "d = topdir")
    case True
    then show ?thesis using "1.prems"(1) by simp
  next
    case False
    then obtain sub where sub: "sub \<in> set subs"
      and d: "d \<in> set (walk (join topdir (fst sub)) (snd sub))"
      using "1.prems"(3) by auto
    have vn: "valid_name (fst sub)" and vt: "valid_tree (snd sub)"
      using "1.prems"(2) sub by (auto simp: list_all_iff)
    have j: "join topdir (fst sub) = topdir @ ''/'' @ fst sub"
      using join_normalized [OF "1.prems"(1)] vn
      by (simp add: valid_name_def no_slash_relative)
    have nj: "normalized_dir (join topdir (fst sub))"
      unfolding j using "1.prems"(1) vn by (rule normalized_dir_child)
    have r: "normalized_dir d \<and>
             (d = join topdir (fst sub) \<or> prefix (join topdir (fst sub) @ ''/'') d)"
      using "1.IH" [OF sub nj vt d] .
    have "prefix (topdir @ ''/'') d"
      using r unfolding j by (auto simp: prefix_def)
    then show ?thesis using r by simp
  qed
qed

lemma lies_inside_walk:
  "normalized_dir snipets_path \<Longrightarrow> valid_tree tree \<Longrightarrow> d \<in> set (walk snipets_path tree) \<Longrightarrow>
   lies_inside snipets_path d"
  using walk_normalized [of snipets_path tree d] by (simp add: lies_inside_def)

subsection \<open>The listing of a directory\<close>

lemma entry_name_Some:
  "entry_name d p = Some name \<longleftrightarrow>
     p = d @ ''/'' @ name \<and> name \<noteq> [] \<and> CHR ''/'' \<notin> set name"
  by (auto simp: entry_name_def Let_def prefix_def)

lemma set_nondirs:
  "set (nondirs fs d) =
     {name. name \<noteq> [] \<and> CHR ''/'' \<notin> set name \<and> d @ ''/'' @ name \<in> fst ` set (contents fs)}"
proof -
  have "set (List.map_filter f xs) = {y. \<exists>x \<in> set xs. f x = Some y}"
    for f :: "string \<Rightarrow> string option" and xs
    by (induction xs) (auto split: option.splits)
  then show ?thesis
    unfolding nondirs_def by (auto simp: entry_name_Some image_iff)
qed

lemma nondirs_no_slash: "\<forall>f \<in> set (nondirs fs d). CHR ''/'' \<notin> set f"
  by (simp add: set_nondirs)

lemma first_sep_unique:
  "c \<notin> set xs \<Longrightarrow> c \<notin> set ys \<Longrightarrow> xs @ c # r = ys @ c # r' \<Longrightarrow> xs = ys \<and> r = r'"
proof (induction xs arbitrary: ys)
  case Nil
  then show ?case by (cases ys) auto
next
  case (Cons x xs)
  then show ?case by (cases ys) auto
qed

lemma path_split_unique:
  assumes "CHR ''/'' \<notin> set n" and "CHR ''/'' \<notin> set n'"
    and "d @ ''/'' @ n = d' @ ''/'' @ n'"
  shows "d = d' \<and> n = n'"
proof -
  have "rev n @ CHR ''/'' # rev d = rev n' @ CHR ''/'' # rev d'"
    using arg_cong [OF assms(3), of rev] by simp
  moreover have "CHR ''/'' \<notin> set (rev n)" "CHR ''/'' \<notin> set (rev n')"
    using assms(1,2) by simp_all
  ultimately have "rev n = rev n' \<and> rev d = rev d'"
    by (rule first_sep_unique [rotated 2])
  then show ?thesis by simp
qed



lemma folder_writes_paths:
  assumes "normalized_dir d" and "\<forall>f \<in> set files. CHR ''/'' \<notin> set f"
    and "p \<in> fst ` set (folder_writes snipets_path d files)"
  shows "\<exists>b. CHR ''/'' \<notin> set b \<and> exts_for files b \<noteq> {} \<and> p = d @ ''/'' @ b @ COMBINED_EXT"
proof -
  obtain c where "(p, c) \<in> set (folder_writes snipets_path d files)"
    using assms(3) by force
  then obtain b where b: "exts_for files b \<noteq> {}" and p: "p = join d (b @ COMBINED_EXT)"
    unfolding set_folder_writes by blast
  have ns: "CHR ''/'' \<notin> set b"
    using base_no_slash [OF assms(2) b] .
  have "join d (b @ COMBINED_EXT) = d @ ''/'' @ b @ COMBINED_EXT"
    using join_normalized [OF assms(1) combined_name_relative [OF ns]] .
  then show ?thesis using b p ns by blast
qed

lemma combined_name_no_slash: "CHR ''/'' \<notin> set b \<Longrightarrow> CHR ''/'' \<notin> set (b @ COMBINED_EXT)"
  by (simp add: COMBINED_EXT_def)



subsection \<open>Running generate twice\<close>




lemma process_folder_frame:
  assumes "normalized_dir d'" and "d \<noteq> d'" and "CHR ''/'' \<notin> set name"
    and "process_folder snipets_path d' (nondirs fs d') fs = Inr fs'"
  shows "map_of (contents fs') (d @ ''/'' @ name) = map_of (contents fs) (d @ ''/'' @ name)"
proof -
  have "d @ ''/'' @ name \<notin> fst ` set (folder_writes snipets_path d' (nondirs fs d'))"
  proof
    assume "d @ ''/'' @ name \<in> fst ` set (folder_writes snipets_path d' (nondirs fs d'))"
    then obtain b where b: "CHR ''/'' \<notin> set b"
      and e: "d @ ''/'' @ name = d' @ ''/'' @ b @ COMBINED_EXT"
      using folder_writes_paths [OF assms(1) nondirs_no_slash] by blast
    then show False
      using path_split_unique [OF assms(3) combined_name_no_slash [OF b] e] assms(2) by simp
  qed
  then have "map_of (folder_writes snipets_path d' (nondirs fs d')) (d @ ''/'' @ name) = None"
    by (simp add: map_of_eq_None_iff)
  then show ?thesis
    by (simp add: process_folder_map_of [OF nondirs_no_slash assms(4)])
qed







subsection \<open>References emitted by generate\<close>

lemma path_to_snippet_inside:
  "path_to_snippet snipets_path (snipets_path @ ''/'' @ rel) = Some (''snippets/'' @ rel)"
  by (simp add: path_to_snippet_def)



subsection \<open>The worked example\<close>

lemma generate_loop_total: "\<exists>fs'. generate_loop cwd snipets_path ds fs = Inr fs'"
  by (induction ds arbitrary: fs) (simp_all add: process_folder_eq)

lemma generate_loop_frame:
  assumes "\<forall>d \<in> set ds. normalized_dir d \<and> d \<noteq> d0" and "CHR ''/'' \<notin> set name"
    and "generate_loop cwd snipets_path ds fs = Inr fs'"
  shows "map_of (contents fs') (d0 @ ''/'' @ name) = map_of (contents fs) (d0 @ ''/'' @ name)"
  using assms(1,3)
proof (induction ds arbitrary: fs)
  case Nil
  then show ?case by simp
next
  case (Cons d ds)
  have nd: "normalized_dir d" and ne: "d0 \<noteq> d" using Cons.prems(1) by auto
  have path: "abspath cwd (join snipets_path d) = d"
    using nd by (rule abspath_join_normalized)
  obtain fs1 where P: "process_folder snipets_path d (nondirs fs d) fs = Inr fs1"
    by (simp add: process_folder_eq)
  have G: "generate_loop cwd snipets_path ds fs1 = Inr fs'"
    using Cons.prems(2) by (simp add: path P)
  have rest: "\<forall>d \<in> set ds. normalized_dir d \<and> d \<noteq> d0" using Cons.prems(1) by simp
  show ?case
    using Cons.IH [OF rest G] process_folder_frame [OF nd ne assms(2) P] by simp
qed

lemma walk_below:
  assumes "normalized_dir topdir" and "valid_tree (DTree subs)"
    and "d \<in> set (concat (map (\<lambda>sub. walk (join topdir (fst sub)) (snd sub)) subs))"
  shows "normalized_dir d \<and> d \<noteq> topdir"
proof -
  have "d \<in> set (walk topdir (DTree subs))" using assms(3) by simp
  then have n: "normalized_dir d" and c: "d = topdir \<or> prefix (topdir @ ''/'') d"
    using walk_normalized [OF assms(1,2)] by blast+
  obtain sub where sub: "sub \<in> set subs"
    and d: "d \<in> set (walk (join topdir (fst sub)) (snd sub))"
    using assms(3) by auto
  have vn: "valid_name (fst sub)" and vt: "valid_tree (snd sub)"
    using assms(2) sub by (auto simp: list_all_iff)
  have j: "join topdir (fst sub) = topdir @ ''/'' @ fst sub"
    using join_normalized [OF assms(1)] vn by (simp add: valid_name_def no_slash_relative)
  have nj: "normalized_dir (topdir @ ''/'' @ fst sub)"
    using assms(1) vn by (rule normalized_dir_child)
  have "d = topdir @ ''/'' @ fst sub \<or> prefix ((topdir @ ''/'' @ fst sub) @ ''/'') d"
    using walk_normalized [OF nj vt, of d] d unfolding j by simp
  then have "length topdir < length d"
    by (auto simp: prefix_def)
  then show ?thesis using n by auto
qed

lemma exts_for_demo:
  "exts_for [''demo.py'', ''demo.go''] ''demo'' = {''.py'', ''.go''}"
proof -
  have m: "matched_ext ''demo.py'' = Some ''.py''" "matched_ext ''demo.go'' = Some ''.go''"
    by (simp_all add: matched_ext_def SORTED_EXTENSIONS_eq suffix_to_prefix)
  show ?thesis
    by (auto simp: exts_for_def m slice_to_neg_def)
qed

lemma content_for_demo:
  assumes "normalized_dir snipets_path"
  shows "content_for snipets_path snipets_path ''demo'' {''.py'', ''.go''} =
     concat (map (\<lambda>line. line @ [CHR 0x0A])
       [''=== '' @ [CHR 0x22] @ ''Go'' @ [CHR 0x22],
        [],
        ''    ```go'',
        ''    --8<-- '' @ [CHR 0x22] @ ''snippets/demo.go'' @ [CHR 0x22],
        ''    ```'',
        ''=== '' @ [CHR 0x22] @ ''Python'' @ [CHR 0x22],
        [],
        ''    ```python'',
        ''    --8<-- '' @ [CHR 0x22] @ ''snippets/demo.py'' @ [CHR 0x22],
        ''    ```''])"
proof -
  have j: "path_to_snippet snipets_path (join snipets_path ''demo.go'') = Some ''snippets/demo.go''"
    "path_to_snippet snipets_path (join snipets_path ''demo.py'') = Some ''snippets/demo.py''"
    using join_normalized [OF assms, of "''demo.go''"] join_normalized [OF assms, of "''demo.py''"]
      path_to_snippet_inside [of snipets_path "''demo.go''"]
      path_to_snippet_inside [of snipets_path "''demo.py''"]
    by simp_all
  have s: "map_of SYNTAX_MAPPING ''.go'' = Some ''go''"
    "map_of SYNTAX_MAPPING ''.py'' = Some ''python''"
    by (simp_all add: SYNTAX_MAPPING_def)
  have f: "filter (\<lambda>(ext, lang). ext \<in> {''.py'', ''.go''}) LANGUAGE_ORDER
             = [(''.go'', ''Go''), (''.py'', ''Python'')]"
    by (simp add: LANGUAGE_ORDER_eq)
  show ?thesis
    unfolding content_for_def blocks_for_def f
    by (simp add: j s tab_block_def py_str_def)
qed

text \<open>
  C1. When the root directory holds exactly the files \<open>demo.py\<close> and \<open>demo.go\<close>,
  \<open>generate\<close> leaves \<open>demo.md\<close> there with these ten lines, each ended by one line break:
  the Go block (header, empty line, opening fence with \<open>go\<close>, include directive for
  \<open>snippets/demo.go\<close>, closing fence) directly followed by the Python block, and nothing
  after the last line break.
\<close>

theorem generate_demo:
  assumes "normalized_dir snipets_path" and "valid_tree tree"
    and "set (nondirs fs snipets_path) = {''demo.py'', ''demo.go''}"
  shows "\<exists>fs'. generate cwd snipets_path tree fs = Inr fs' \<and>
          map_of (contents fs') (snipets_path @ ''/demo.md'') =
            Some (concat (map (\<lambda>line. line @ [CHR 0x0A])
              [''=== '' @ [CHR 0x22] @ ''Go'' @ [CHR 0x22],
               [],
               ''    ```go'',
               ''    --8<-- '' @ [CHR 0x22] @ ''snippets/demo.go'' @ [CHR 0x22],
               ''    ```'',
               ''=== '' @ [CHR 0x22] @ ''Python'' @ [CHR 0x22],
               [],
               ''    ```python'',
               ''    --8<-- '' @ [CHR 0x22] @ ''snippets/demo.py'' @ [CHR 0x22],
               ''    ```'']))"
proof -
  obtain subs where tree: "tree = DTree subs" by (cases tree)
  let ?rest = "concat (map (\<lambda>sub. walk (join snipets_path (fst sub)) (snd sub)) subs)"
  have path: "abspath cwd (join snipets_path snipets_path) = snipets_path"
    using assms(1) by (rule abspath_join_normalized)
  obtain fs1 where P: "process_folder snipets_path snipets_path (nondirs fs snipets_path) fs = Inr fs1"
    by (simp add: process_folder_eq)
  obtain fs' where G: "generate_loop cwd snipets_path ?rest fs1 = Inr fs'"
    using generate_loop_total by blast
  have gen: "generate cwd snipets_path tree fs = Inr fs'"
    by (simp add: generate_def tree path P G)
  have "set (nondirs fs snipets_path) = set [''demo.py'', ''demo.go'']"
    using assms(3) by simp
  then have E: "exts_for (nondirs fs snipets_path) ''demo'' = {''.py'', ''.go''}"
    using exts_for_cong [of "nondirs fs snipets_path" "[''demo.py'', ''demo.go'']"] exts_for_demo
    by simp
  then have ne: "exts_for (nondirs fs snipets_path) ''demo'' \<noteq> {}" by simp
  have jm: "join snipets_path (''demo'' @ COMBINED_EXT) = snipets_path @ ''/demo.md''"
    using join_normalized [OF assms(1), of "''demo.md''"] by (simp add: COMBINED_EXT_def)
  have "map_of (contents fs1) (join snipets_path (''demo'' @ COMBINED_EXT))
          = Some (content_for snipets_path snipets_path ''demo''
                    (exts_for (nondirs fs snipets_path) ''demo''))"
    unfolding process_folder_map_of [OF nondirs_no_slash P]
      folder_writes_lookup [OF nondirs_no_slash ne]
    by simp
  then have c1: "map_of (contents fs1) (snipets_path @ ''/demo.md'')
          = Some (content_for snipets_path snipets_path ''demo'' {''.py'', ''.go''})"
    unfolding jm E .
  have below: "\<forall>d \<in> set ?rest. normalized_dir d \<and> d \<noteq> snipets_path"
    using walk_below [OF assms(1) assms(2) [unfolded tree]] by blast
  have "map_of (contents fs') (snipets_path @ ''/'' @ ''demo.md'')
          = map_of (contents fs1) (snipets_path @ ''/'' @ ''demo.md'')"
    by (rule generate_loop_frame [OF below _ G]) simp
  then have "map_of (contents fs') (snipets_path @ ''/demo.md'')
          = Some (content_for snipets_path snipets_path ''demo'' {''.py'', ''.go''})"
    using c1 by simp
  then show ?thesis
    using gen unfolding content_for_demo [OF assms(1)] by blast
qed

theorem generate_demo_witness:
  "normalized_dir ''/docs/snippets''
   \<and> valid_tree (DTree [])
   \<and> set (nondirs \<lparr>contents = [(''/docs/snippets/demo.py'', ''print(1)''),
                                (''/docs/snippets/demo.go'', ''package demo'')],
                    writes = []\<rparr> ''/docs/snippets'') = {''demo.py'', ''demo.go''}
   \<and> (\<exists>fs'. generate ''/home/user'' ''/docs/snippets'' (DTree [])
                 \<lparr>contents = [(''/docs/snippets/demo.py'', ''print(1)''),
                              (''/docs/snippets/demo.go'', ''package demo'')],
                  writes = []\<rparr> = Inr fs' \<and>
          map_of (contents fs') (''/docs/snippets'' @ ''/demo.md'') =
            Some (concat (map (\<lambda>line. line @ [CHR 0x0A])
              [''=== '' @ [CHR 0x22] @ ''Go'' @ [CHR 0x22],
               [],
               ''    ```go'',
               ''    --8<-- '' @ [CHR 0x22] @ ''snippets/demo.go'' @ [CHR 0x22],
               ''    ```'',
               ''=== '' @ [CHR 0x22] @ ''Python'' @ [CHR 0x22],
               [],
               ''    ```python'',
               ''    --8<-- '' @ [CHR 0x22] @ ''snippets/demo.py'' @ [CHR 0x22],
               ''    ```''])))"
proof -
  have h1: "normalized_dir ''/docs/snippets''"
    by (simp add: normalized_dir_def valid_name_def)
  have h2: "valid_tree (DTree [])"
    by simp
  have h3: "set (nondirs \<lparr>contents = [(''/docs/snippets/demo.py'', ''print(1)''),
                                (''/docs/snippets/demo.go'', ''package demo'')],
                    writes = []\<rparr> ''/docs/snippets'') = {''demo.py'', ''demo.go''}"
    by (simp add: nondirs_def entry_name_def)
  show ?thesis
    by (intro conjI h1 h2 h3 generate_demo [OF h1 h2 h3])
qed

end
